theory Spec2Isabelle
  imports Main "HOL-Library.Word"
begin

section \<open>The CDC echo handler of firmware/src/cdc_app.c\<close>

text \<open>
  The file holds two callbacks that the USB device stack invokes:
  \<^verbatim>\<open>tud_cdc_line_state_cb\<close> and \<^verbatim>\<open>tud_cdc_rx_cb\<close>. The stack itself
  (\<^verbatim>\<open>tusb.h\<close>) is an external library. The callbacks reach it through five
  functions only, so the model takes these five functions as a parameter, over a
  state type \<open>'s\<close> that stands for everything the stack keeps (its FIFOs, the DTR
  bit, ...). Every call may change that state.
\<close>

type_synonym u8 = "8 word"
type_synonym u32 = "32 word"

subsection \<open>The stack as seen from the callbacks\<close>

text \<open>
  \<^item> \<open>tud_cdc_connected\<close>: the DTR query, \<^verbatim>\<open>tud_cdc_connected()\<close>.
  \<^item> \<open>tud_cdc_n_available itf\<close>: the number of pending bytes. The handler only
    tests it against zero; its C type is declared in the external header, the model
    takes it as a natural number.
  \<^item> \<open>tud_cdc_n_read itf cap\<close>: the bytes the stack hands over. The C function
    stores them at the start of the caller's buffer and returns how many they are;
    the model takes the bytes as the result and derives the count (\<open>read_count\<close>)
    and the buffer (\<open>store\<close>) from them. Nothing forces a stack to honour \<open>cap\<close>.
    A read whose returned count is not the number of bytes it stored has no place
    in this record; the last subsection of the model gives the handler over a stack
    that returns the count apart from the bytes.
  \<^item> \<open>tud_cdc_n_write itf bytes n\<close>: the stack is given the buffer and the
    length \<open>n\<close>; \<open>bytes\<close> are the first \<open>n\<close> bytes of the buffer. The value the
    C function returns is discarded by the handler.
  \<^item> \<open>tud_cdc_n_write_flush itf\<close>: its return value is discarded too.
\<close>

record 's cdc_stack =
  tud_cdc_connected :: "'s \<Rightarrow> bool \<times> 's"
  tud_cdc_n_available :: "u8 \<Rightarrow> 's \<Rightarrow> nat \<times> 's"
  tud_cdc_n_read :: "u8 \<Rightarrow> nat \<Rightarrow> 's \<Rightarrow> u8 list \<times> 's"
  tud_cdc_n_write :: "u8 \<Rightarrow> u8 list \<Rightarrow> u32 \<Rightarrow> 's \<Rightarrow> 's"
  tud_cdc_n_write_flush :: "u8 \<Rightarrow> 's \<Rightarrow> 's"

text \<open>
  The outbound calls of one callback invocation, in the order they are made, each
  with its arguments and (for the three queries) what the stack answered.
\<close>

datatype call =
    Connected bool
  | Available u8 nat
  | Read u8 nat "u8 list"
  | Write u8 "u8 list" u32
  | Flush u8

subsection \<open>The transfer buffer\<close>

text \<open>
  \<^verbatim>\<open>uint8_t buf[64]\<close> is a local array without initialiser: 64 cells of
  arbitrary content, given by \<open>junk\<close>.
\<close>

definition buf_init :: "(nat \<Rightarrow> u8) \<Rightarrow> u8 list" where
  "buf_init junk = map junk [0..<64]"

text \<open>
  A read stores its bytes from index 0 on and leaves the rest of the buffer as it
  was. A stack that stores more bytes than the buffer has cells overruns the array,
  which C leaves undefined; the model keeps the buffer at its size.
\<close>

definition store :: "u8 list \<Rightarrow> u8 list \<Rightarrow> u8 list" where
  "store buf data = take (length buf) (data @ drop (length data) buf)"

text \<open>\<^verbatim>\<open>uint32_t const count = tud_cdc_n_read(...)\<close>: the count as a 32-bit value.\<close>

definition read_count :: "u8 list \<Rightarrow> u32" where
  "read_count data = word_of_nat (length data)"

subsection \<open>tud_cdc_line_state_cb\<close>

text \<open>
  Both branches of \<^verbatim>\<open>if (dtr)\<close> are empty. The result is the list of outbound
  calls and the stack state after the callback.
\<close>

definition tud_cdc_line_state_cb ::
  "'s cdc_stack \<Rightarrow> u8 \<Rightarrow> bool \<Rightarrow> bool \<Rightarrow> 's \<Rightarrow> call list \<times> 's" where
  "tud_cdc_line_state_cb stk itf dtr rts s = (if dtr then ([], s) else ([], s))"

subsection \<open>tud_cdc_rx_cb\<close>

text \<open>
  The drain loop (lines 59 to 68). Nothing in the handler bounds the number of
  iterations, so the loop runs on fuel, one unit per iteration. The result is the
  calls made so far and \<open>Some\<close> of the stack state if the loop was left (by its
  condition or by \<^verbatim>\<open>break\<close>), \<open>None\<close> if the fuel ran out first.
\<close>

fun drain :: "nat \<Rightarrow> 's cdc_stack \<Rightarrow> u8 \<Rightarrow> u8 list \<Rightarrow> 's \<Rightarrow> call list \<times> 's option" where
  "drain 0 stk itf buf s = ([], None)"
| "drain (Suc fuel) stk itf buf s =
     (case tud_cdc_n_available stk itf s of (avail, s1) \<Rightarrow>
        if avail = 0 then ([Available itf avail], Some s1)
        else
          (case tud_cdc_n_read stk itf 64 s1 of (data, s2) \<Rightarrow>
             let buf' = store buf data;
                 count = read_count data
             in if count = 0 then ([Available itf avail, Read itf 64 data], Some s2)
                else
                  let bytes = take (unat count) buf';
                      s3 = tud_cdc_n_write stk itf bytes count s2
                  in (case drain fuel stk itf buf' s3 of (calls, r) \<Rightarrow>
                        (Available itf avail # Read itf 64 data # Write itf bytes count # calls,
                         r))))"

text \<open>
  The handler: the connection guard with its early return, the loop, the flush.
  \<open>None\<close> as second component: the handler has not returned within the fuel.
\<close>

definition tud_cdc_rx_cb ::
  "nat \<Rightarrow> 's cdc_stack \<Rightarrow> u8 \<Rightarrow> (nat \<Rightarrow> u8) \<Rightarrow> 's \<Rightarrow> call list \<times> 's option" where
  "tud_cdc_rx_cb fuel stk itf junk s =
     (case tud_cdc_connected stk s of (conn, s0) \<Rightarrow>
        if \<not> conn then ([Connected conn], Some s0)
        else
          (case drain fuel stk itf (buf_init junk) s0 of
             (calls, None) \<Rightarrow> (Connected conn # calls, None)
           | (calls, Some s1) \<Rightarrow>
               (Connected conn # calls @ [Flush itf],
                Some (tud_cdc_n_write_flush stk itf s1))))"

subsection \<open>Reading a call list\<close>

fun flushes :: "call list \<Rightarrow> nat" where
  "flushes [] = 0"
| "flushes (Flush itf # cs) = Suc (flushes cs)"
| "flushes (c # cs) = flushes cs"

fun written :: "call list \<Rightarrow> u8 list" where
  "written [] = []"
| "written (Write itf bytes n # cs) = bytes @ written cs"
| "written (c # cs) = written cs"

fun delivered :: "call list \<Rightarrow> u8 list" where
  "delivered [] = []"
| "delivered (Read itf cap data # cs) = data @ delivered cs"
| "delivered (c # cs) = delivered cs"

fun write_lens :: "call list \<Rightarrow> u32 list" where
  "write_lens [] = []"
| "write_lens (Write itf bytes n # cs) = n # write_lens cs"
| "write_lens (c # cs) = write_lens cs"

fun read_lens :: "call list \<Rightarrow> nat list" where
  "read_lens [] = []"
| "read_lens (Read itf cap data # cs) = length data # read_lens cs"
| "read_lens (c # cs) = read_lens cs"

text \<open>Every read of the list handed over no more bytes than the capacity it was given.\<close>

fun reads_bounded :: "call list \<Rightarrow> bool" where
  "reads_bounded [] = True"
| "reads_bounded (Read itf cap data # cs) = (length data \<le> cap \<and> reads_bounded cs)"
| "reads_bounded (c # cs) = reads_bounded cs"

text \<open>Every write of the list was passed a length of at most 64.\<close>

fun writes_bounded :: "call list \<Rightarrow> bool" where
  "writes_bounded [] = True"
| "writes_bounded (Write itf bytes n # cs) = (unat n \<le> 64 \<and> writes_bounded cs)"
| "writes_bounded (c # cs) = writes_bounded cs"

subsection \<open>Assumptions on the stack\<close>

text \<open>What \<open>tud_cdc_n_available\<close> would answer in state \<open>s\<close>.\<close>

definition pending :: "'s cdc_stack \<Rightarrow> u8 \<Rightarrow> 's \<Rightarrow> nat" where
  "pending stk itf s = fst (tud_cdc_n_available stk itf s)"

text \<open>
  A read (with the handler's capacity, 64) that returns a positive count lowers the
  pending count by that count; the query and a write do not raise it (no byte
  arrives while the loop runs).
\<close>

definition read_consumes :: "'s cdc_stack \<Rightarrow> u8 \<Rightarrow> bool" where
  "read_consumes stk itf \<longleftrightarrow>
     (\<forall>s. pending stk itf (snd (tud_cdc_n_available stk itf s)) \<le> pending stk itf s \<and>
          (read_count (fst (tud_cdc_n_read stk itf 64 s)) \<noteq> 0 \<longrightarrow>
             pending stk itf (snd (tud_cdc_n_read stk itf 64 s)) +
               unat (read_count (fst (tud_cdc_n_read stk itf 64 s))) = pending stk itf s) \<and>
          (\<forall>bytes n. pending stk itf (tud_cdc_n_write stk itf bytes n s) \<le> pending stk itf s))"

text \<open>
  A read hands over \<open>min 64 remaining\<close> bytes and lowers the pending count by as
  many; the query and a write leave the pending count as it is.
\<close>

definition chunked_reads :: "'s cdc_stack \<Rightarrow> u8 \<Rightarrow> bool" where
  "chunked_reads stk itf \<longleftrightarrow>
     (\<forall>s. pending stk itf (snd (tud_cdc_n_available stk itf s)) = pending stk itf s \<and>
          length (fst (tud_cdc_n_read stk itf 64 s)) = min 64 (pending stk itf s) \<and>
          pending stk itf (snd (tud_cdc_n_read stk itf 64 s)) =
            pending stk itf s - min 64 (pending stk itf s) \<and>
          (\<forall>bytes n. pending stk itf (tud_cdc_n_write stk itf bytes n s) = pending stk itf s))"

subsection \<open>Example stacks\<close>

text \<open>
  A byte queue behind the interface: \<open>dtr\<close> is the terminal's DTR bit, \<open>rx\<close> the
  bytes received from the host and not yet read, \<open>tx\<close> the bytes queued for
  transmission, \<open>flushed\<close> the number of flush calls seen.
\<close>

record fifo =
  dtr :: bool
  rx :: "u8 list"
  tx :: "u8 list"
  flushed :: nat

text \<open>The well-behaved stack: a read hands over at most \<open>cap\<close> bytes.\<close>

definition fifo_stack :: "fifo cdc_stack" where
  "fifo_stack =
     \<lparr> tud_cdc_connected = (\<lambda>s. (dtr s, s)),
       tud_cdc_n_available = (\<lambda>itf s. (length (rx s), s)),
       tud_cdc_n_read = (\<lambda>itf cap s. (take cap (rx s), s\<lparr>rx := drop cap (rx s)\<rparr>)),
       tud_cdc_n_write = (\<lambda>itf bytes n s. s\<lparr>tx := tx s @ bytes\<rparr>),
       tud_cdc_n_write_flush = (\<lambda>itf s. s\<lparr>flushed := Suc (flushed s)\<rparr>) \<rparr>"

text \<open>A stack whose read ignores the capacity and hands over all it has.\<close>

definition burst_stack :: "fifo cdc_stack" where
  "burst_stack = fifo_stack \<lparr> tud_cdc_n_read := (\<lambda>itf cap s. (rx s, s\<lparr>rx := []\<rparr>)) \<rparr>"

text \<open>A stack that reports pending bytes but whose read hands over nothing.\<close>

definition stalled_stack :: "fifo cdc_stack" where
  "stalled_stack = fifo_stack \<lparr> tud_cdc_n_read := (\<lambda>itf cap s. ([], s)) \<rparr>"

definition fifo_of :: "bool \<Rightarrow> u8 list \<Rightarrow> fifo" where
  "fifo_of d bs = \<lparr> dtr = d, rx = bs, tx = [], flushed = 0 \<rparr>"

text \<open>A buffer that happens to hold zeros before the first read.\<close>

definition zeroed :: "nat \<Rightarrow> u8" where
  "zeroed i = 0"

subsection \<open>The handler with the count of a read kept apart\<close>

text \<open>
  In C the value that \<^verbatim>\<open>tud_cdc_n_read\<close> returns and the bytes it stores in the
  buffer are two results of one call, and the handler sends \<^verbatim>\<open>buf[0..count)\<close>
  whatever was stored. What the buffer can pass on therefore depends on how the two
  relate. Here the read returns both: the bytes it stores from index 0 on, and its
  count. The callee only stores into the buffer; it does not read it. The other
  four functions are as before.
\<close>

record 's counting_stack =
  tud_cdc_connected_c :: "'s \<Rightarrow> bool \<times> 's"
  tud_cdc_n_available_c :: "u8 \<Rightarrow> 's \<Rightarrow> nat \<times> 's"
  tud_cdc_n_read_c :: "u8 \<Rightarrow> nat \<Rightarrow> 's \<Rightarrow> (u8 list \<times> u32) \<times> 's"
  tud_cdc_n_write_c :: "u8 \<Rightarrow> u8 list \<Rightarrow> u32 \<Rightarrow> 's \<Rightarrow> 's"
  tud_cdc_n_write_flush_c :: "u8 \<Rightarrow> 's \<Rightarrow> 's"

text \<open>The calls as before; a read is listed with the bytes it stored and its count.\<close>

datatype counted_call =
    CConnected bool
  | CAvailable u8 nat
  | CRead u8 nat "u8 list" u32
  | CWrite u8 "u8 list" u32
  | CFlush u8

fun drain_c ::
  "nat \<Rightarrow> 's counting_stack \<Rightarrow> u8 \<Rightarrow> u8 list \<Rightarrow> 's \<Rightarrow> counted_call list \<times> 's option" where
  "drain_c 0 stk itf buf s = ([], None)"
| "drain_c (Suc fuel) stk itf buf s =
     (case tud_cdc_n_available_c stk itf s of (avail, s1) \<Rightarrow>
        if avail = 0 then ([CAvailable itf avail], Some s1)
        else
          (case tud_cdc_n_read_c stk itf 64 s1 of ((data, count), s2) \<Rightarrow>
             let buf' = store buf data
             in if count = 0 then ([CAvailable itf avail, CRead itf 64 data count], Some s2)
                else
                  let bytes = take (unat count) buf';
                      s3 = tud_cdc_n_write_c stk itf bytes count s2
                  in (case drain_c fuel stk itf buf' s3 of (calls, r) \<Rightarrow>
                        (CAvailable itf avail # CRead itf 64 data count #
                           CWrite itf bytes count # calls,
                         r))))"

definition tud_cdc_rx_cb_c ::
  "nat \<Rightarrow> 's counting_stack \<Rightarrow> u8 \<Rightarrow> (nat \<Rightarrow> u8) \<Rightarrow> 's \<Rightarrow>
   counted_call list \<times> 's option" where
  "tud_cdc_rx_cb_c fuel stk itf junk s =
     (case tud_cdc_connected_c stk s of (conn, s0) \<Rightarrow>
        if \<not> conn then ([CConnected conn], Some s0)
        else
          (case drain_c fuel stk itf (buf_init junk) s0 of
             (calls, None) \<Rightarrow> (CConnected conn # calls, None)
           | (calls, Some s1) \<Rightarrow>
               (CConnected conn # calls @ [CFlush itf],
                Some (tud_cdc_n_write_flush_c stk itf s1))))"

text \<open>
  A stack of the first kind, seen as one of this kind: its read returns the number
  of bytes it stored. On such stacks the two handlers make the same calls
  (\<open>rx_cb_counting\<close> below).
\<close>

definition counting :: "'s cdc_stack \<Rightarrow> 's counting_stack" where
  "counting stk =
     \<lparr> tud_cdc_connected_c = tud_cdc_connected stk,
       tud_cdc_n_available_c = tud_cdc_n_available stk,
       tud_cdc_n_read_c = (\<lambda>itf cap s.
          case tud_cdc_n_read stk itf cap s of (data, s') \<Rightarrow> ((data, read_count data), s')),
       tud_cdc_n_write_c = tud_cdc_n_write stk,
       tud_cdc_n_write_flush_c = tud_cdc_n_write_flush stk \<rparr>"

fun plain :: "counted_call \<Rightarrow> call" where
  "plain (CConnected c) = Connected c"
| "plain (CAvailable itf n) = Available itf n"
| "plain (CRead itf cap data count) = Read itf cap data"
| "plain (CWrite itf bytes n) = Write itf bytes n"
| "plain (CFlush itf) = Flush itf"

text \<open>
  Every write of the list comes right after a read on the same interface and is
  passed the count that this read returned.
\<close>

fun writes_follow_reads :: "counted_call list \<Rightarrow> bool" where
  "writes_follow_reads [] = True"
| "writes_follow_reads (CRead i cap d n # CWrite j bytes m # cs) =
     (j = i \<and> m = n \<and> writes_follow_reads cs)"
| "writes_follow_reads (CWrite j bytes m # cs) = False"
| "writes_follow_reads (c # cs) = writes_follow_reads cs"

text \<open>Every read of the list stored at least as many bytes as the count it returned.\<close>

fun reads_filled :: "counted_call list \<Rightarrow> bool" where
  "reads_filled [] = True"
| "reads_filled (CRead i cap d n # cs) = (unat n \<le> length d \<and> reads_filled cs)"
| "reads_filled (c # cs) = reads_filled cs"

text \<open>
  The bytes of every write of the list are the first bytes, as many as its length
  says, of what the read just before it stored in the 64 cells of the buffer.
\<close>

fun writes_fresh :: "counted_call list \<Rightarrow> bool" where
  "writes_fresh [] = True"
| "writes_fresh (CRead i cap d n # CWrite j bytes m # cs) =
     (bytes = take (unat m) (take 64 d) \<and> writes_fresh cs)"
| "writes_fresh (CWrite j bytes m # cs) = False"
| "writes_fresh (c # cs) = writes_fresh cs"

text \<open>A buffer that happens to hold 0xAA in every cell before the first read.\<close>

definition aa :: "nat \<Rightarrow> u8" where
  "aa i = 170"

text \<open>A stack whose read stores at most three bytes and returns the count 5.\<close>

definition short_stack :: "fifo counting_stack" where
  "short_stack = counting fifo_stack
     \<lparr> tud_cdc_n_read_c :=
         (\<lambda>itf cap s. ((take 3 (rx s), 5), s\<lparr>rx := drop 3 (rx s)\<rparr>)) \<rparr>"

section \<open>Auxiliary facts\<close>

subsection \<open>The buffer\<close>

lemma length_buf_init: "length (buf_init junk) = 64"
  by (simp add: buf_init_def)

lemma length_store: "length (store buf data) = length buf"
  by (simp add: store_def)

lemma unat_read_count_le: "unat (read_count data) \<le> length data"
  by (simp add: read_count_def unat_of_nat)

lemma unat_read_count: "length data \<le> 64 \<Longrightarrow> unat (read_count data) = length data"
  by (simp add: read_count_def unat_of_nat)

lemma read_count_zero: "length d \<le> 64 \<Longrightarrow> read_count d = 0 \<Longrightarrow> d = []"
  using unat_read_count [of d] by simp

lemma take_store:
  "k \<le> length data \<Longrightarrow> take k (store buf data) = take k (take (length buf) data)"
  by (simp add: store_def take_take min_def)

lemma echoed_bytes:
  "take (unat (read_count data)) (store buf data) =
   take (unat (read_count data)) (take (length buf) data)"
  by (rule take_store) (rule unat_read_count_le)

lemma echoed_all:
  "length data \<le> 64 \<Longrightarrow> length buf = 64 \<Longrightarrow>
   take (unat (read_count data)) (store buf data) = data"
  by (simp add: echoed_bytes unat_read_count store_def)

subsection \<open>Call lists\<close>

lemma flushes_append: "flushes (cs @ ds) = flushes cs + flushes ds"
  by (induction cs rule: flushes.induct) simp_all

lemma written_append: "written (cs @ ds) = written cs @ written ds"
  by (induction cs rule: written.induct) simp_all

lemma delivered_append: "delivered (cs @ ds) = delivered cs @ delivered ds"
  by (induction cs rule: delivered.induct) simp_all

lemma write_lens_append: "write_lens (cs @ ds) = write_lens cs @ write_lens ds"
  by (induction cs rule: write_lens.induct) simp_all

lemma reads_bounded_append:
  "reads_bounded (cs @ ds) = (reads_bounded cs \<and> reads_bounded ds)"
  by (induction cs rule: reads_bounded.induct) simp_all

lemma writes_bounded_append:
  "writes_bounded (cs @ ds) = (writes_bounded cs \<and> writes_bounded ds)"
  by (induction cs rule: writes_bounded.induct) simp_all

subsection \<open>One iteration of the loop\<close>

text \<open>
  With fuel left, an iteration goes one of three ways: the loop condition fails
  (\<open>exit\<close>), the read returns 0 and the loop is left by \<^verbatim>\<open>break\<close> (\<open>stall\<close>), or
  the bytes are written and the loop goes on (\<open>echo\<close>).
\<close>

lemma drain_iteration:
  obtains
    (exit) s1 where
      "tud_cdc_n_available stk itf s = (0, s1)"
      "drain (Suc fuel) stk itf buf s = ([Available itf 0], Some s1)"
  | (stall) a s1 d s2 where
      "tud_cdc_n_available stk itf s = (a, s1)" "a \<noteq> 0"
      "tud_cdc_n_read stk itf 64 s1 = (d, s2)" "read_count d = 0"
      "drain (Suc fuel) stk itf buf s = ([Available itf a, Read itf 64 d], Some s2)"
  | (echo) a s1 d s2 s3 where
      "tud_cdc_n_available stk itf s = (a, s1)" "a \<noteq> 0"
      "tud_cdc_n_read stk itf 64 s1 = (d, s2)" "read_count d \<noteq> 0"
      "s3 = tud_cdc_n_write stk itf (take (unat (read_count d)) (store buf d)) (read_count d) s2"
      "drain (Suc fuel) stk itf buf s =
         (Available itf a # Read itf 64 d #
            Write itf (take (unat (read_count d)) (store buf d)) (read_count d) #
            fst (drain fuel stk itf (store buf d) s3),
          snd (drain fuel stk itf (store buf d) s3))"
proof (cases "tud_cdc_n_available stk itf s")
  case av: (Pair a s1)
  show thesis
  proof (cases "a = 0")
    case True
    with av show thesis by (intro exit [of s1]) simp_all
  next
    case nz: False
    show thesis
    proof (cases "tud_cdc_n_read stk itf 64 s1")
      case rd: (Pair d s2)
      show thesis
      proof (cases "read_count d = 0")
        case True
        with av nz rd show thesis by (intro stall [of a s1 d s2]) simp_all
      next
        case False
        with av nz rd show thesis
          by (intro echo [of a s1 d s2]) (simp_all add: Let_def case_prod_beta)
      qed
    qed
  qed
qed

lemma drain_exit:
  "pending stk itf s = 0 \<Longrightarrow>
   drain (Suc fuel) stk itf buf s =
     ([Available itf 0], Some (snd (tud_cdc_n_available stk itf s)))"
  by (cases "tud_cdc_n_available stk itf s") (simp add: pending_def)

declare drain.simps(2) [simp del]

subsection \<open>The handler by cases\<close>

lemma rx_cb_connected:
  assumes "tud_cdc_connected stk s = (True, s0)"
  shows "tud_cdc_rx_cb fuel stk itf junk s =
    (case snd (drain fuel stk itf (buf_init junk) s0) of
       None \<Rightarrow> (Connected True # fst (drain fuel stk itf (buf_init junk) s0), None)
     | Some s1 \<Rightarrow>
         (Connected True # fst (drain fuel stk itf (buf_init junk) s0) @ [Flush itf],
          Some (tud_cdc_n_write_flush stk itf s1)))"
  using assms by (simp add: tud_cdc_rx_cb_def case_prod_beta)

lemma rx_cb_disconnected:
  assumes "tud_cdc_connected stk s = (False, s0)"
  shows "tud_cdc_rx_cb fuel stk itf junk s = ([Connected False], Some s0)"
  using assms by (simp add: tud_cdc_rx_cb_def)

text \<open>
  An invocation is \<open>silent\<close> (the guard returned), still \<open>running\<close> when the fuel is
  used up, or has \<open>returned\<close> after the flush.
\<close>

lemma rx_cb_cases:
  obtains
    (silent) s0 where
      "tud_cdc_connected stk s = (False, s0)"
      "tud_cdc_rx_cb fuel stk itf junk s = ([Connected False], Some s0)"
  | (running) s0 where
      "tud_cdc_connected stk s = (True, s0)"
      "snd (drain fuel stk itf (buf_init junk) s0) = None"
      "tud_cdc_rx_cb fuel stk itf junk s =
         (Connected True # fst (drain fuel stk itf (buf_init junk) s0), None)"
  | (returned) s0 s1 where
      "tud_cdc_connected stk s = (True, s0)"
      "snd (drain fuel stk itf (buf_init junk) s0) = Some s1"
      "tud_cdc_rx_cb fuel stk itf junk s =
         (Connected True # fst (drain fuel stk itf (buf_init junk) s0) @ [Flush itf],
          Some (tud_cdc_n_write_flush stk itf s1))"
proof (cases "tud_cdc_connected stk s")
  case (Pair c s0)
  show thesis
  proof (cases c)
    case False
    with Pair show thesis by (intro silent [of s0]) (simp_all add: rx_cb_disconnected)
  next
    case True
    show thesis
    proof (cases "snd (drain fuel stk itf (buf_init junk) s0)")
      case None
      with Pair True show thesis by (intro running [of s0]) (simp_all add: rx_cb_connected)
    next
      case (Some s1)
      with Pair True show thesis
        by (intro returned [of s0 s1]) (simp_all add: rx_cb_connected)
    qed
  qed
qed

subsection \<open>Invariants of the loop\<close>

lemma drain_no_flush: "flushes (fst (drain fuel stk itf buf s)) = 0"
proof (induction fuel arbitrary: buf s)
  case 0
  show ?case by simp
next
  case (Suc fuel)
  show ?case
    by (cases rule: drain_iteration [of stk itf s fuel buf]) (simp_all add: Suc.IH)
qed

lemma drain_write_lens: "0 \<notin> set (write_lens (fst (drain fuel stk itf buf s)))"
proof (induction fuel arbitrary: buf s)
  case 0
  show ?case by simp
next
  case (Suc fuel)
  show ?case
    by (cases rule: drain_iteration [of stk itf s fuel buf]) (simp_all add: Suc.IH)
qed

lemma drain_echo:
  "length buf = 64 \<Longrightarrow> reads_bounded (fst (drain fuel stk itf buf s)) \<Longrightarrow>
   written (fst (drain fuel stk itf buf s)) = delivered (fst (drain fuel stk itf buf s))"
proof (induction fuel arbitrary: buf s)
  case 0
  show ?case by simp
next
  case (Suc fuel)
  show ?case
  proof (cases rule: drain_iteration [of stk itf s fuel buf])
    case (exit s1)
    then show ?thesis by simp
  next
    case (stall a s1 d s2)
    with Suc.prems read_count_zero [of d] show ?thesis by simp
  next
    case (echo a s1 d s2 s3)
    from Suc.prems echo have b: "length d \<le> 64"
      and r: "reads_bounded (fst (drain fuel stk itf (store buf d) s3))"
      by simp_all
    have "written (fst (drain fuel stk itf (store buf d) s3)) =
          delivered (fst (drain fuel stk itf (store buf d) s3))"
      using Suc.prems(1) r by (intro Suc.IH) (simp_all add: length_store)
    with echo b Suc.prems(1) show ?thesis by (simp add: echoed_all)
  qed
qed

lemma drain_writes_bounded:
  "reads_bounded (fst (drain fuel stk itf buf s)) \<Longrightarrow>
   writes_bounded (fst (drain fuel stk itf buf s))"
proof (induction fuel arbitrary: buf s)
  case 0
  show ?case by simp
next
  case (Suc fuel)
  show ?case
  proof (cases rule: drain_iteration [of stk itf s fuel buf])
    case (exit s1)
    then show ?thesis by simp
  next
    case (stall a s1 d s2)
    then show ?thesis by simp
  next
    case (echo a s1 d s2 s3)
    from Suc.prems echo have b: "length d \<le> 64"
      and r: "reads_bounded (fst (drain fuel stk itf (store buf d) s3))"
      by simp_all
    from Suc.IH [OF r] echo(6) unat_read_count [OF b] b show ?thesis by simp
  qed
qed

lemma drain_stall_last:
  "fst (drain fuel stk itf buf s) = pre @ Read i cap d # post \<Longrightarrow> read_count d = 0 \<Longrightarrow>
   post = [] \<and> snd (drain fuel stk itf buf s) \<noteq> None"
proof (induction fuel arbitrary: buf s pre)
  case 0
  then show ?case by simp
next
  case (Suc fuel)
  show ?case
  proof (cases rule: drain_iteration [of stk itf s fuel buf])
    case (exit s1)
    with Suc.prems show ?thesis by (simp add: Cons_eq_append_conv)
  next
    case (stall a s1 d' s2)
    with Suc.prems show ?thesis by (auto simp: Cons_eq_append_conv)
  next
    case (echo a s1 d' s2 s3)
    with Suc.prems obtain pre' where
      "fst (drain fuel stk itf (store buf d') s3) = pre' @ Read i cap d # post"
      by (auto simp: Cons_eq_append_conv)
    from Suc.IH [OF this Suc.prems(2)] echo show ?thesis by simp
  qed
qed

subsection \<open>The loop on a stack that consumes what it reads\<close>

lemma drain_returns:
  "read_consumes stk itf \<Longrightarrow> pending stk itf s < fuel \<Longrightarrow>
   snd (drain fuel stk itf buf s) \<noteq> None"
proof (induction fuel arbitrary: buf s)
  case 0
  then show ?case by simp
next
  case (Suc fuel)
  from Suc.prems(1)
  have q: "pending stk itf (snd (tud_cdc_n_available stk itf t)) \<le> pending stk itf t"
    and w: "pending stk itf (tud_cdc_n_write stk itf bytes n t) \<le> pending stk itf t"
    and r: "read_count (fst (tud_cdc_n_read stk itf 64 t)) \<noteq> 0 \<Longrightarrow>
            pending stk itf (snd (tud_cdc_n_read stk itf 64 t)) +
              unat (read_count (fst (tud_cdc_n_read stk itf 64 t))) = pending stk itf t"
    for t bytes n
    unfolding read_consumes_def by blast+
  show ?case
  proof (cases rule: drain_iteration [of stk itf s fuel buf])
    case (exit s1)
    then show ?thesis by simp
  next
    case (stall a s1 d s2)
    then show ?thesis by simp
  next
    case (echo a s1 d s2 s3)
    have "pending stk itf s1 \<le> pending stk itf s"
      using q [of s] echo(1) by simp
    moreover have "pending stk itf s2 + unat (read_count d) = pending stk itf s1"
      using r [of s1] echo(3,4) by simp
    moreover have "pending stk itf s3 \<le> pending stk itf s2"
      using w [of _ _ s2] echo(5) by simp
    moreover have "unat (read_count d) \<noteq> 0"
      using echo(4) by (simp add: unat_eq_zero)
    ultimately have "pending stk itf s3 < fuel"
      using Suc.prems(2) by linarith
    from Suc.IH [OF Suc.prems(1) this] echo show ?thesis by simp
  qed
qed

lemma drain_chunk:
  assumes "chunked_reads stk itf" and "pending stk itf s = p" and "p \<noteq> 0"
  shows "\<exists>d bytes s3.
    length d = min 64 p \<and> pending stk itf s3 = p - min 64 p \<and>
    drain (Suc fuel) stk itf buf s =
       (Available itf p # Read itf 64 d # Write itf bytes (read_count d) #
          fst (drain fuel stk itf (store buf d) s3),
        snd (drain fuel stk itf (store buf d) s3))"
proof -
  from assms(1)
  have q: "pending stk itf (snd (tud_cdc_n_available stk itf t)) = pending stk itf t"
    and w: "pending stk itf (tud_cdc_n_write stk itf bytes n t) = pending stk itf t"
    and l: "length (fst (tud_cdc_n_read stk itf 64 t)) = min 64 (pending stk itf t)"
    and r: "pending stk itf (snd (tud_cdc_n_read stk itf 64 t)) =
              pending stk itf t - min 64 (pending stk itf t)"
    for t bytes n
    unfolding chunked_reads_def by blast+
  show ?thesis
  proof (cases rule: drain_iteration [of stk itf s fuel buf])
    case (exit s1)
    with assms(2,3) show ?thesis by (simp add: pending_def)
  next
    case (stall a s1 d s2)
    have "pending stk itf s1 = p" using q [of s] stall(1) assms(2) by simp
    with l [of s1] stall(3) have "length d = min 64 p" by simp
    with assms(3) read_count_zero [of d] stall(4) show ?thesis by auto
  next
    case (echo a s1 d s2 s3)
    have a: "a = p" using echo(1) assms(2) by (simp add: pending_def)
    have p1: "pending stk itf s1 = p" using q [of s] echo(1) assms(2) by simp
    with l [of s1] echo(3) have ld: "length d = min 64 p" by simp
    from p1 r [of s1] echo(3) have "pending stk itf s2 = p - min 64 p" by simp
    with w [of _ _ s2] echo(5) have "pending stk itf s3 = p - min 64 p" by simp
    with ld echo(6) a show ?thesis by blast
  qed
qed

subsection \<open>The example stacks\<close>

lemma fifo_chunked_reads: "chunked_reads fifo_stack itf"
  by (simp add: chunked_reads_def pending_def fifo_stack_def min_def)

lemma fifo_read_consumes: "read_consumes fifo_stack itf"
  by (simp add: read_consumes_def pending_def fifo_stack_def unat_read_count min_def)

text \<open>Three pending bytes, connected: one echo, then the loop condition fails.\<close>

lemma run_fifo_3:
  "tud_cdc_rx_cb (Suc (Suc 0)) fifo_stack 0 zeroed (fifo_of True [1, 2, 3]) =
     ([Connected True, Available 0 3, Read 0 64 [1, 2, 3], Write 0 [1, 2, 3] 3,
       Available 0 0, Flush 0],
      Some \<lparr> dtr = True, rx = [], tx = [1, 2, 3], flushed = 1 \<rparr>)"
  by (simp add: tud_cdc_rx_cb_def drain.simps fifo_stack_def fifo_of_def
      echoed_all length_buf_init Let_def) (simp add: read_count_def)

text \<open>Two pending bytes, connected, and a read that hands over nothing.\<close>

lemma run_stalled:
  "tud_cdc_rx_cb (Suc 0) stalled_stack 0 zeroed (fifo_of True [1, 2]) =
     ([Connected True, Available 0 2, Read 0 64 [], Flush 0],
      Some \<lparr> dtr = True, rx = [1, 2], tx = [], flushed = 1 \<rparr>)"
  by (simp add: tud_cdc_rx_cb_def drain.simps stalled_stack_def fifo_stack_def fifo_of_def
      read_count_def Let_def)

text \<open>65 pending bytes, connected, and a read that ignores the capacity.\<close>

lemma run_burst_65:
  "write_lens (fst (tud_cdc_rx_cb (Suc (Suc 0)) burst_stack 0 zeroed
     (fifo_of True (replicate 65 7)))) = [65]"
  by (simp add: tud_cdc_rx_cb_def drain.simps burst_stack_def fifo_stack_def fifo_of_def
      read_count_def Let_def)

text \<open>Not connected: the guard returns.\<close>

lemma run_disconnected:
  "tud_cdc_rx_cb fuel fifo_stack 0 zeroed (fifo_of False [1, 2, 3]) =
     ([Connected False], Some (fifo_of False [1, 2, 3]))"
  by (simp add: tud_cdc_rx_cb_def fifo_stack_def fifo_of_def)

subsection \<open>The handler with the count kept apart\<close>

lemma drain_c_iteration:
  obtains
    (exit) s1 where
      "tud_cdc_n_available_c stk itf s = (0, s1)"
      "drain_c (Suc fuel) stk itf buf s = ([CAvailable itf 0], Some s1)"
  | (stall) a s1 d s2 where
      "tud_cdc_n_available_c stk itf s = (a, s1)" "a \<noteq> 0"
      "tud_cdc_n_read_c stk itf 64 s1 = ((d, 0), s2)"
      "drain_c (Suc fuel) stk itf buf s = ([CAvailable itf a, CRead itf 64 d 0], Some s2)"
  | (echo) a s1 d n s2 s3 where
      "tud_cdc_n_available_c stk itf s = (a, s1)" "a \<noteq> 0"
      "tud_cdc_n_read_c stk itf 64 s1 = ((d, n), s2)" "n \<noteq> 0"
      "s3 = tud_cdc_n_write_c stk itf (take (unat n) (store buf d)) n s2"
      "drain_c (Suc fuel) stk itf buf s =
         (CAvailable itf a # CRead itf 64 d n #
            CWrite itf (take (unat n) (store buf d)) n #
            fst (drain_c fuel stk itf (store buf d) s3),
          snd (drain_c fuel stk itf (store buf d) s3))"
proof (cases "tud_cdc_n_available_c stk itf s")
  case av: (Pair a s1)
  show thesis
  proof (cases "a = 0")
    case True
    with av show thesis by (intro exit [of s1]) simp_all
  next
    case nz: False
    show thesis
    proof (cases "tud_cdc_n_read_c stk itf 64 s1")
      case rd: (Pair dn s2)
      obtain d n where dn: "dn = (d, n)" by (cases dn)
      show thesis
      proof (cases "n = 0")
        case True
        with av nz rd dn show thesis by (intro stall [of a s1 d s2]) simp_all
      next
        case False
        with av nz rd dn show thesis
          by (intro echo [of a s1 d n s2]) (simp_all add: Let_def case_prod_beta)
      qed
    qed
  qed
qed

declare drain_c.simps(2) [simp del]

lemma rx_cb_c_cases:
  obtains
    (silent) s0 where
      "tud_cdc_connected_c stk s = (False, s0)"
      "tud_cdc_rx_cb_c fuel stk itf junk s = ([CConnected False], Some s0)"
  | (running) s0 where
      "tud_cdc_connected_c stk s = (True, s0)"
      "snd (drain_c fuel stk itf (buf_init junk) s0) = None"
      "tud_cdc_rx_cb_c fuel stk itf junk s =
         (CConnected True # fst (drain_c fuel stk itf (buf_init junk) s0), None)"
  | (returned) s0 s1 where
      "tud_cdc_connected_c stk s = (True, s0)"
      "snd (drain_c fuel stk itf (buf_init junk) s0) = Some s1"
      "tud_cdc_rx_cb_c fuel stk itf junk s =
         (CConnected True # fst (drain_c fuel stk itf (buf_init junk) s0) @ [CFlush itf],
          Some (tud_cdc_n_write_flush_c stk itf s1))"
proof (cases "tud_cdc_connected_c stk s")
  case (Pair c s0)
  show thesis
  proof (cases c)
    case False
    with Pair show thesis by (intro silent [of s0]) (simp_all add: tud_cdc_rx_cb_c_def)
  next
    case True
    show thesis
    proof (cases "snd (drain_c fuel stk itf (buf_init junk) s0)")
      case None
      with Pair True show thesis
        by (intro running [of s0]) (simp_all add: tud_cdc_rx_cb_c_def case_prod_beta)
    next
      case (Some s1)
      with Pair True show thesis
        by (intro returned [of s0 s1]) (simp_all add: tud_cdc_rx_cb_c_def case_prod_beta)
    qed
  qed
qed

lemma writes_follow_reads_flush:
  "writes_follow_reads (cs @ [CFlush i]) = writes_follow_reads cs"
  by (induction cs rule: writes_follow_reads.induct) simp_all

lemma writes_fresh_flush: "writes_fresh (cs @ [CFlush i]) = writes_fresh cs"
  by (induction cs rule: writes_fresh.induct) simp_all

lemma reads_filled_append: "reads_filled (cs @ ds) = (reads_filled cs \<and> reads_filled ds)"
  by (induction cs rule: reads_filled.induct) simp_all

lemma drain_c_follows: "writes_follow_reads (fst (drain_c fuel stk itf buf s))"
proof (induction fuel arbitrary: buf s)
  case 0
  show ?case by simp
next
  case (Suc fuel)
  show ?case
    by (cases rule: drain_c_iteration [of stk itf s fuel buf]) (simp_all add: Suc.IH)
qed

lemma drain_c_fresh:
  "length buf = 64 \<Longrightarrow> reads_filled (fst (drain_c fuel stk itf buf s)) \<Longrightarrow>
   writes_fresh (fst (drain_c fuel stk itf buf s))"
proof (induction fuel arbitrary: buf s)
  case 0
  show ?case by simp
next
  case (Suc fuel)
  show ?case
  proof (cases rule: drain_c_iteration [of stk itf s fuel buf])
    case (exit s1)
    then show ?thesis by simp
  next
    case (stall a s1 d s2)
    then show ?thesis by simp
  next
    case (echo a s1 d n s2 s3)
    from Suc.prems echo have f: "unat n \<le> length d"
      and r: "reads_filled (fst (drain_c fuel stk itf (store buf d) s3))"
      by simp_all
    have "writes_fresh (fst (drain_c fuel stk itf (store buf d) s3))"
      using Suc.prems(1) r by (intro Suc.IH) (simp_all add: length_store)
    with echo(6) take_store [OF f, of buf] Suc.prems(1) show ?thesis by simp
  qed
qed

text \<open>
  While the reads store what they count, the loop runs the same on two buffers of
  the same size, whatever they hold.
\<close>

lemma drain_c_junk_free:
  "length b1 = length b2 \<Longrightarrow> reads_filled (fst (drain_c fuel stk itf b1 s)) \<Longrightarrow>
   drain_c fuel stk itf b1 s = drain_c fuel stk itf b2 s"
proof (induction fuel arbitrary: b1 b2 s)
  case 0
  show ?case by simp
next
  case (Suc fuel)
  show ?case
  proof (cases rule: drain_c_iteration [of stk itf s fuel b1])
    case (exit s1)
    then show ?thesis by (simp add: drain_c.simps)
  next
    case (stall a s1 d s2)
    then show ?thesis by (simp add: drain_c.simps)
  next
    case (echo a s1 d n s2 s3)
    from Suc.prems echo have f: "unat n \<le> length d"
      and r: "reads_filled (fst (drain_c fuel stk itf (store b1 d) s3))"
      by simp_all
    have t: "take (unat n) (store b1 d) = take (unat n) (store b2 d)"
      using take_store [OF f, of b1] take_store [OF f, of b2] Suc.prems(1) by simp
    have "drain_c fuel stk itf (store b1 d) s3 = drain_c fuel stk itf (store b2 d) s3"
      using r by (intro Suc.IH) (simp_all add: length_store Suc.prems(1))
    with echo t show ?thesis by (simp add: drain_c.simps Let_def)
  qed
qed

text \<open>
  On a stack whose read returns the number of bytes it stored, the handler with the
  count kept apart is the handler of the first model, call by call.
\<close>

lemma drain_counting:
  "drain fuel stk itf buf s =
     (map plain (fst (drain_c fuel (counting stk) itf buf s)),
      snd (drain_c fuel (counting stk) itf buf s))"
proof (induction fuel arbitrary: buf s)
  case 0
  show ?case by simp
next
  case (Suc fuel)
  show ?case
    by (simp add: drain.simps drain_c.simps counting_def Let_def case_prod_beta Suc.IH)
qed

lemma rx_cb_counting:
  "tud_cdc_rx_cb fuel stk itf junk s =
     (map plain (fst (tud_cdc_rx_cb_c fuel (counting stk) itf junk s)),
      snd (tud_cdc_rx_cb_c fuel (counting stk) itf junk s))"
proof (cases "tud_cdc_connected stk s")
  case (Pair c s0)
  then show ?thesis
    by (cases "snd (drain_c fuel (counting stk) itf (buf_init junk) s0)")
      (simp_all add: tud_cdc_rx_cb_def tud_cdc_rx_cb_c_def drain_counting counting_def
        case_prod_beta)
qed

text \<open>Three pending bytes; the read stores them and returns 5; the buffer held 0xAA.\<close>

lemma run_short_aa:
  "tud_cdc_rx_cb_c (Suc (Suc 0)) short_stack 0 aa (fifo_of True [1, 2, 3]) =
     ([CConnected True, CAvailable 0 3, CRead 0 64 [1, 2, 3] 5,
       CWrite 0 [1, 2, 3, 170, 170] 5, CAvailable 0 0, CFlush 0],
      Some \<lparr> dtr = True, rx = [], tx = [1, 2, 3, 170, 170], flushed = 1 \<rparr>)"
  by code_simp

text \<open>The same, the buffer held zeros.\<close>

lemma run_short_zeroed:
  "tud_cdc_rx_cb_c (Suc (Suc 0)) short_stack 0 zeroed (fifo_of True [1, 2, 3]) =
     ([CConnected True, CAvailable 0 3, CRead 0 64 [1, 2, 3] 5,
       CWrite 0 [1, 2, 3, 0, 0] 5, CAvailable 0 0, CFlush 0],
      Some \<lparr> dtr = True, rx = [], tx = [1, 2, 3, 0, 0], flushed = 1 \<rparr>)"
  by code_simp

text \<open>Three pending bytes; the read stores them and returns 3.\<close>

lemma run_counting_aa:
  "tud_cdc_rx_cb_c (Suc (Suc 0)) (counting fifo_stack) 0 aa (fifo_of True [1, 2, 3]) =
     ([CConnected True, CAvailable 0 3, CRead 0 64 [1, 2, 3] 3, CWrite 0 [1, 2, 3] 3,
       CAvailable 0 0, CFlush 0],
      Some \<lparr> dtr = True, rx = [], tx = [1, 2, 3], flushed = 1 \<rparr>)"
  by code_simp

section \<open>Properties of the callbacks\<close>

subsection \<open>The line-state callback\<close>

text \<open>
  C7. For every interface, DTR and RTS value the line-state callback makes no call
  into the stack and leaves the stack state as it was; in particular nothing is
  transmitted, and the result is the same whether RTS is asserted or not.
\<close>

theorem line_state_cb_noop:
  "tud_cdc_line_state_cb stk itf d r s = ([], s) \<and>
   tud_cdc_line_state_cb stk itf d True s = tud_cdc_line_state_cb stk itf d False s"
  by (simp add: tud_cdc_line_state_cb_def)

subsection \<open>The connection guard\<close>

text \<open>
  C3. When \<open>tud_cdc_connected\<close> answers false, the handler returns at once: the
  query is its only call (no read, no write), and the stack is left in the state
  the query left it in, so no pending byte is consumed.
\<close>

theorem disconnected_silence:
  assumes "\<not> fst (tud_cdc_connected stk s)"
  shows "tud_cdc_rx_cb fuel stk itf junk s =
           ([Connected False], Some (snd (tud_cdc_connected stk s)))"
  using assms by (cases "tud_cdc_connected stk s") (simp add: tud_cdc_rx_cb_def)

theorem disconnected_silence_witness:
  "\<not> fst (tud_cdc_connected fifo_stack (fifo_of False [1, 2, 3])) \<and>
   tud_cdc_rx_cb 5 fifo_stack 0 zeroed (fifo_of False [1, 2, 3]) =
     ([Connected False], Some (fifo_of False [1, 2, 3]))"
proof -
  have h: "\<not> fst (tud_cdc_connected fifo_stack (fifo_of False [1, 2, 3]))"
    by (simp add: fifo_stack_def fifo_of_def)
  show ?thesis
    using h disconnected_silence [OF h, of 5 0 zeroed]
    by (simp add: fifo_stack_def fifo_of_def)
qed

subsection \<open>The flush\<close>

text \<open>
  C2, as the spec states it, asks for exactly one flush in every invocation, also
  when the guard returns. The guard's \<^verbatim>\<open>return\<close> (line 55) comes before the flush
  (line 70): a disconnected invocation makes no flush call.
\<close>

theorem flush_skipped_when_disconnected:
  "flushes (fst (tud_cdc_rx_cb 5 fifo_stack 0 zeroed (fifo_of False [1, 2, 3]))) \<noteq> 1"
  by (simp add: run_disconnected)

text \<open>
  C2, amended. An invocation that passes the guard and returns makes exactly one
  flush call, as its last call, however many iterations the loop made. An
  invocation that does not pass the guard returns without any flush call.
\<close>

theorem flush_once_after_drain:
  "(fst (tud_cdc_connected stk s) \<longrightarrow> snd (tud_cdc_rx_cb fuel stk itf junk s) \<noteq> None \<longrightarrow>
      flushes (fst (tud_cdc_rx_cb fuel stk itf junk s)) = 1 \<and>
      last (fst (tud_cdc_rx_cb fuel stk itf junk s)) = Flush itf) \<and>
   (\<not> fst (tud_cdc_connected stk s) \<longrightarrow>
      flushes (fst (tud_cdc_rx_cb fuel stk itf junk s)) = 0 \<and>
      snd (tud_cdc_rx_cb fuel stk itf junk s) \<noteq> None)"
  by (cases rule: rx_cb_cases [of stk s fuel itf junk])
    (simp_all add: flushes_append drain_no_flush)

theorem flush_once_after_drain_witness:
  "fst (tud_cdc_connected fifo_stack (fifo_of True [1, 2, 3])) \<and>
   snd (tud_cdc_rx_cb (Suc (Suc 0)) fifo_stack 0 zeroed (fifo_of True [1, 2, 3])) \<noteq> None \<and>
   flushes (fst (tud_cdc_rx_cb (Suc (Suc 0)) fifo_stack 0 zeroed (fifo_of True [1, 2, 3]))) = 1 \<and>
   last (fst (tud_cdc_rx_cb (Suc (Suc 0)) fifo_stack 0 zeroed (fifo_of True [1, 2, 3]))) = Flush 0 \<and>
   \<not> fst (tud_cdc_connected fifo_stack (fifo_of False [1, 2, 3])) \<and>
   flushes (fst (tud_cdc_rx_cb (Suc (Suc 0)) fifo_stack 0 zeroed (fifo_of False [1, 2, 3]))) = 0 \<and>
   snd (tud_cdc_rx_cb (Suc (Suc 0)) fifo_stack 0 zeroed (fifo_of False [1, 2, 3])) \<noteq> None"
proof -
  have c: "fst (tud_cdc_connected fifo_stack (fifo_of True [1, 2, 3]))"
    and d: "\<not> fst (tud_cdc_connected fifo_stack (fifo_of False [1, 2, 3]))"
    by (simp_all add: fifo_stack_def fifo_of_def)
  have r: "snd (tud_cdc_rx_cb (Suc (Suc 0)) fifo_stack 0 zeroed (fifo_of True [1, 2, 3])) \<noteq> None"
    by (simp add: run_fifo_3)
  show ?thesis
    using c d r
      flush_once_after_drain [of fifo_stack "fifo_of True [1, 2, 3]" "Suc (Suc 0)" 0 zeroed]
      flush_once_after_drain [of fifo_stack "fifo_of False [1, 2, 3]" "Suc (Suc 0)" 0 zeroed]
    by blast
qed

subsection \<open>Echo fidelity\<close>

text \<open>
  C1. In every invocation whose reads each handed over at most the 64 bytes of
  capacity they were given (which a stack whose available count and read count
  agree does), the bytes passed to write, concatenated in call order, are the bytes
  the reads handed over, concatenated in call order: same bytes, same order, same
  number. The statement holds for every amount of fuel, that is for every prefix
  of the run.
\<close>

theorem echo_fidelity:
  assumes "reads_bounded (fst (tud_cdc_rx_cb fuel stk itf junk s))"
  shows "written (fst (tud_cdc_rx_cb fuel stk itf junk s)) =
         delivered (fst (tud_cdc_rx_cb fuel stk itf junk s))"
proof (cases rule: rx_cb_cases [of stk s fuel itf junk])
  case (silent s0)
  then show ?thesis by simp
next
  case (running s0)
  with assms show ?thesis by (simp add: drain_echo length_buf_init)
next
  case (returned s0 s1)
  with assms show ?thesis
    by (simp add: drain_echo length_buf_init written_append delivered_append
        reads_bounded_append)
qed

theorem echo_fidelity_witness:
  "reads_bounded (fst (tud_cdc_rx_cb 3 fifo_stack 0 zeroed (fifo_of True (replicate 66 7)))) \<and>
   delivered (fst (tud_cdc_rx_cb 3 fifo_stack 0 zeroed (fifo_of True (replicate 66 7)))) =
     replicate 66 7 \<and>
   written (fst (tud_cdc_rx_cb 3 fifo_stack 0 zeroed (fifo_of True (replicate 66 7)))) =
     replicate 66 7"
proof -
  have h: "reads_bounded
      (fst (tud_cdc_rx_cb 3 fifo_stack 0 zeroed (fifo_of True (replicate 66 7))))"
    by code_simp
  have d: "delivered (fst (tud_cdc_rx_cb 3 fifo_stack 0 zeroed (fifo_of True (replicate 66 7)))) =
      replicate 66 7"
    by code_simp
  show ?thesis
    using echo_fidelity [OF h] h d by simp
qed

subsection \<open>Chunks\<close>

text \<open>
  C5, as the spec states it, bounds every write by 64 bytes for every behaviour of
  the stack. The handler passes to write the count that read returned and never
  compares it with the size of the buffer: with a stack whose read hands over 65
  bytes in spite of the capacity 64, the write is passed the length 65.
\<close>

theorem write_length_follows_read:
  "\<not> writes_bounded (fst (tud_cdc_rx_cb (Suc (Suc 0)) burst_stack 0 zeroed
       (fifo_of True (replicate 65 7))))"
proof -
  have "write_lens (fst (tud_cdc_rx_cb (Suc (Suc 0)) burst_stack 0 zeroed
          (fifo_of True (replicate 65 7)))) = [65]"
    by (rule run_burst_65)
  moreover have "writes_bounded cs \<Longrightarrow> list_all (\<lambda>n. unat n \<le> 64) (write_lens cs)" for cs
    by (induction cs rule: writes_bounded.induct) simp_all
  ultimately show ?thesis by fastforce
qed

text \<open>
  C5, amended. In every invocation whose reads each handed over at most the
  capacity they were given, no write is passed a length greater than 64.
\<close>

theorem bounded_chunking:
  assumes "reads_bounded (fst (tud_cdc_rx_cb fuel stk itf junk s))"
  shows "writes_bounded (fst (tud_cdc_rx_cb fuel stk itf junk s))"
proof (cases rule: rx_cb_cases [of stk s fuel itf junk])
  case (silent s0)
  then show ?thesis by simp
next
  case (running s0)
  with assms show ?thesis by (simp add: drain_writes_bounded)
next
  case (returned s0 s1)
  with assms show ?thesis
    by (simp add: drain_writes_bounded writes_bounded_append reads_bounded_append)
qed

theorem bounded_chunking_witness:
  "reads_bounded (fst (tud_cdc_rx_cb (Suc (Suc 0)) fifo_stack 0 zeroed (fifo_of True [1, 2, 3]))) \<and>
   writes_bounded (fst (tud_cdc_rx_cb (Suc (Suc 0)) fifo_stack 0 zeroed (fifo_of True [1, 2, 3])))"
proof -
  have h: "reads_bounded
      (fst (tud_cdc_rx_cb (Suc (Suc 0)) fifo_stack 0 zeroed (fifo_of True [1, 2, 3])))"
    by (simp add: run_fifo_3)
  from bounded_chunking [OF h] h show ?thesis by simp
qed

text \<open>
  C10. No write is ever passed the length 0, whatever the stack does and however
  far the run has got: a read that returns 0 leaves the loop before the write.
\<close>

theorem no_zero_length_write:
  "0 \<notin> set (write_lens (fst (tud_cdc_rx_cb fuel stk itf junk s)))"
  by (cases rule: rx_cb_cases [of stk s fuel itf junk])
    (simp_all add: write_lens_append drain_write_lens)

text \<open>
  C4. On a connected stack with 130 bytes pending, whose reads hand over
  \<open>min 64 remaining\<close> bytes and lower the pending count by as many, the handler
  (given fuel for the four evaluations of the loop condition) makes exactly three
  reads, of 64, 64 and 2 bytes, three writes of lengths 64, 64 and 2 in that
  order, and one flush, which is its last call; and it returns.
\<close>

theorem scenario_130_bytes:
  assumes "chunked_reads stk itf"
    and "fst (tud_cdc_connected stk s)"
    and "pending stk itf (snd (tud_cdc_connected stk s)) = 130"
    and "4 \<le> fuel"
  shows "read_lens (fst (tud_cdc_rx_cb fuel stk itf junk s)) = [64, 64, 2] \<and>
         write_lens (fst (tud_cdc_rx_cb fuel stk itf junk s)) = [64, 64, 2] \<and>
         flushes (fst (tud_cdc_rx_cb fuel stk itf junk s)) = 1 \<and>
         last (fst (tud_cdc_rx_cb fuel stk itf junk s)) = Flush itf \<and>
         snd (tud_cdc_rx_cb fuel stk itf junk s) \<noteq> None"
proof -
  from assms(4) obtain k where fuel: "fuel = Suc (Suc (Suc (Suc k)))"
    by (auto simp: le_iff_add eval_nat_numeral)
  define s0 where "s0 = snd (tud_cdc_connected stk s)"
  with assms(2) have conn: "tud_cdc_connected stk s = (True, s0)"
    by (cases "tud_cdc_connected stk s") simp
  from assms(3) have p0: "pending stk itf s0 = 130" by (simp add: s0_def)
  obtain d1 b1 t1 where 1: "length d1 = 64" "pending stk itf t1 = 66"
    "drain fuel stk itf (buf_init junk) s0 =
       (Available itf 130 # Read itf 64 d1 # Write itf b1 (read_count d1) #
          fst (drain (Suc (Suc (Suc k))) stk itf (store (buf_init junk) d1) t1),
        snd (drain (Suc (Suc (Suc k))) stk itf (store (buf_init junk) d1) t1))"
    using drain_chunk [OF assms(1) p0, of "Suc (Suc (Suc k))" "buf_init junk"]
    unfolding fuel by auto
  obtain d2 b2 t2 where 2: "length d2 = 64" "pending stk itf t2 = 2"
    "drain (Suc (Suc (Suc k))) stk itf (store (buf_init junk) d1) t1 =
       (Available itf 66 # Read itf 64 d2 # Write itf b2 (read_count d2) #
          fst (drain (Suc (Suc k)) stk itf (store (store (buf_init junk) d1) d2) t2),
        snd (drain (Suc (Suc k)) stk itf (store (store (buf_init junk) d1) d2) t2))"
    using drain_chunk [OF assms(1) 1(2), of "Suc (Suc k)" "store (buf_init junk) d1"]
    by auto
  obtain d3 b3 t3 where 3: "length d3 = 2" "pending stk itf t3 = 0"
    "drain (Suc (Suc k)) stk itf (store (store (buf_init junk) d1) d2) t2 =
       (Available itf 2 # Read itf 64 d3 # Write itf b3 (read_count d3) #
          fst (drain (Suc k) stk itf (store (store (store (buf_init junk) d1) d2) d3) t3),
        snd (drain (Suc k) stk itf (store (store (store (buf_init junk) d1) d2) d3) t3))"
    using drain_chunk [OF assms(1) 2(2), of "Suc k" "store (store (buf_init junk) d1) d2"]
    by auto
  note 4 = drain_exit [OF 3(2), of k "store (store (store (buf_init junk) d1) d2) d3"]
  have c: "read_count d1 = 64" "read_count d2 = 64" "read_count d3 = 2"
    using 1(1) 2(1) 3(1) by (simp_all add: read_count_def)
  show ?thesis
    by (simp add: rx_cb_connected [OF conn] 1 2 3 4 c)
qed

theorem scenario_130_bytes_witness:
  "chunked_reads fifo_stack 0 \<and>
   fst (tud_cdc_connected fifo_stack (fifo_of True (replicate 130 7))) \<and>
   pending fifo_stack 0
     (snd (tud_cdc_connected fifo_stack (fifo_of True (replicate 130 7)))) = 130 \<and>
   (4::nat) \<le> 4 \<and>
   read_lens (fst (tud_cdc_rx_cb 4 fifo_stack 0 zeroed (fifo_of True (replicate 130 7)))) =
     [64, 64, 2] \<and>
   write_lens (fst (tud_cdc_rx_cb 4 fifo_stack 0 zeroed (fifo_of True (replicate 130 7)))) =
     [64, 64, 2] \<and>
   flushes (fst (tud_cdc_rx_cb 4 fifo_stack 0 zeroed (fifo_of True (replicate 130 7)))) = 1 \<and>
   last (fst (tud_cdc_rx_cb 4 fifo_stack 0 zeroed (fifo_of True (replicate 130 7)))) =
     Flush 0 \<and>
   snd (tud_cdc_rx_cb 4 fifo_stack 0 zeroed (fifo_of True (replicate 130 7))) \<noteq> None"
proof -
  have c: "fst (tud_cdc_connected fifo_stack (fifo_of True (replicate 130 7)))"
    by (simp add: fifo_stack_def fifo_of_def)
  have p: "pending fifo_stack 0
             (snd (tud_cdc_connected fifo_stack (fifo_of True (replicate 130 7)))) = 130"
    by (simp add: pending_def fifo_stack_def fifo_of_def)
  have f: "(4::nat) \<le> 4" by simp
  show ?thesis
    using scenario_130_bytes [OF fifo_chunked_reads c p f, of zeroed] fifo_chunked_reads c p
    by simp
qed

subsection \<open>A read that returns nothing\<close>

text \<open>
  C6. If, at any point of an invocation, a read returns the count 0 (the handler
  reads only after the available count was non-zero), the only call after that
  read is the flush: no write for that iteration, no further query of the
  available count; and the handler returns.
\<close>

theorem zero_read_ends_drain:
  assumes "fst (tud_cdc_rx_cb fuel stk itf junk s) = pre @ Read i cap d # post"
    and "read_count d = 0"
  shows "post = [Flush itf] \<and> snd (tud_cdc_rx_cb fuel stk itf junk s) \<noteq> None"
proof (cases rule: rx_cb_cases [of stk s fuel itf junk])
  case (silent s0)
  with assms show ?thesis by (simp add: Cons_eq_append_conv)
next
  case (running s0)
  with assms(1) obtain pre' where
    "fst (drain fuel stk itf (buf_init junk) s0) = pre' @ Read i cap d # post"
    by (auto simp: Cons_eq_append_conv)
  from drain_stall_last [OF this assms(2)] running show ?thesis by simp
next
  case (returned s0 s1)
  let ?cs = "fst (drain fuel stk itf (buf_init junk) s0)"
  from assms(1) returned obtain pre' where p: "?cs @ [Flush itf] = pre' @ Read i cap d # post"
    by (auto simp: Cons_eq_append_conv)
  then obtain post' where "?cs = pre' @ Read i cap d # post'" "post = post' @ [Flush itf]"
    by (auto simp: append_eq_append_conv2 Cons_eq_append_conv append_eq_Cons_conv)
  with drain_stall_last [OF this(1) assms(2)] returned show ?thesis by simp
qed

theorem zero_read_ends_drain_witness:
  "fst (tud_cdc_rx_cb (Suc 0) stalled_stack 0 zeroed (fifo_of True [1, 2])) =
     [Connected True, Available 0 2] @ Read 0 64 [] # [Flush 0] \<and>
   read_count [] = 0 \<and>
   snd (tud_cdc_rx_cb (Suc 0) stalled_stack 0 zeroed (fifo_of True [1, 2])) \<noteq> None"
proof -
  have t: "fst (tud_cdc_rx_cb (Suc 0) stalled_stack 0 zeroed (fifo_of True [1, 2])) =
     [Connected True, Available 0 2] @ Read 0 64 [] # [Flush 0]"
    by (simp add: run_stalled)
  have z: "read_count [] = 0"
    by (simp add: read_count_def)
  from zero_read_ends_drain [OF t z] t z show ?thesis by simp
qed

subsection \<open>Termination\<close>

text \<open>
  C8. On a stack where a read with a positive count lowers the pending count by
  that count and no byte arrives while the loop runs, the loop is left after at
  most as many iterations as bytes were pending at its start, and the handler
  returns: fuel beyond the pending count is never used up.
\<close>

theorem drain_loop_terminates:
  assumes "read_consumes stk itf"
    and "pending stk itf (snd (tud_cdc_connected stk s)) < fuel"
  shows "snd (tud_cdc_rx_cb fuel stk itf junk s) \<noteq> None"
proof (cases rule: rx_cb_cases [of stk s fuel itf junk])
  case (silent s0)
  then show ?thesis by simp
next
  case (running s0)
  with drain_returns [OF assms(1), of s0 fuel "buf_init junk"] assms(2) show ?thesis by simp
next
  case (returned s0 s1)
  then show ?thesis by simp
qed

theorem drain_loop_terminates_witness:
  "read_consumes fifo_stack 0 \<and>
   pending fifo_stack 0 (snd (tud_cdc_connected fifo_stack (fifo_of True [1, 2, 3]))) < 4 \<and>
   snd (tud_cdc_rx_cb 4 fifo_stack 0 zeroed (fifo_of True [1, 2, 3])) \<noteq> None"
proof -
  have p: "pending fifo_stack 0 (snd (tud_cdc_connected fifo_stack (fifo_of True [1, 2, 3]))) < 4"
    by (simp add: pending_def fifo_stack_def fifo_of_def)
  show ?thesis
    using drain_loop_terminates [OF fifo_read_consumes p, of zeroed] fifo_read_consumes p
    by simp
qed

subsection \<open>What the buffer passes on\<close>

text \<open>
  C9, as the spec states it, concludes from the length of the write being the
  count of the read that no byte is sent which the current read did not store, and
  that two runs differing only in what the buffer held at entry make the same write
  calls. The handler sends \<^verbatim>\<open>buf[0..count)\<close> and has no way to tell how many
  bytes the read stored: when the read stores three bytes and returns 5, the write
  is passed two bytes that the buffer held before, 0xAA in one run and 0 in the
  other.
\<close>

theorem stale_bytes_on_short_read:
  "fst (tud_cdc_rx_cb_c (Suc (Suc 0)) short_stack 0 aa (fifo_of True [1, 2, 3])) =
     [CConnected True, CAvailable 0 3, CRead 0 64 [1, 2, 3] 5,
      CWrite 0 [1, 2, 3, 170, 170] 5, CAvailable 0 0, CFlush 0] \<and>
   fst (tud_cdc_rx_cb_c (Suc (Suc 0)) short_stack 0 zeroed (fifo_of True [1, 2, 3])) =
     [CConnected True, CAvailable 0 3, CRead 0 64 [1, 2, 3] 5,
      CWrite 0 [1, 2, 3, 0, 0] 5, CAvailable 0 0, CFlush 0]"
  by (simp add: run_short_aa run_short_zeroed)

text \<open>
  C9, amended. In every iteration the length passed to write is the count that the
  read of that iteration returned, whatever the stack does. In an invocation whose
  reads each stored at least as many bytes as the count they returned, the bytes of
  every write are bytes that the read of that iteration stored, and an invocation
  that differs only in what the buffer held at entry makes the same calls with the
  same arguments and leaves the stack in the same state.
\<close>

theorem no_stale_bytes_when_filled:
  "writes_follow_reads (fst (tud_cdc_rx_cb_c fuel stk itf junk s)) \<and>
   (reads_filled (fst (tud_cdc_rx_cb_c fuel stk itf junk s)) \<longrightarrow>
      writes_fresh (fst (tud_cdc_rx_cb_c fuel stk itf junk s)) \<and>
      tud_cdc_rx_cb_c fuel stk itf junk' s = tud_cdc_rx_cb_c fuel stk itf junk s)"
proof (cases rule: rx_cb_c_cases [of stk s fuel itf junk])
  case (silent s0)
  then show ?thesis by (simp add: tud_cdc_rx_cb_c_def)
next
  case (running s0)
  have "reads_filled (fst (drain_c fuel stk itf (buf_init junk) s0)) \<Longrightarrow>
        drain_c fuel stk itf (buf_init junk) s0 = drain_c fuel stk itf (buf_init junk') s0"
    by (rule drain_c_junk_free) (simp_all add: length_buf_init)
  with running show ?thesis
    by (auto simp: drain_c_follows drain_c_fresh length_buf_init tud_cdc_rx_cb_c_def)
next
  case (returned s0 s1)
  have "reads_filled (fst (drain_c fuel stk itf (buf_init junk) s0)) \<Longrightarrow>
        drain_c fuel stk itf (buf_init junk) s0 = drain_c fuel stk itf (buf_init junk') s0"
    by (rule drain_c_junk_free) (simp_all add: length_buf_init)
  with returned show ?thesis
    by (auto simp: drain_c_follows drain_c_fresh length_buf_init tud_cdc_rx_cb_c_def
        writes_follow_reads_flush writes_fresh_flush reads_filled_append)
qed

theorem no_stale_bytes_when_filled_witness:
  "reads_filled
     (fst (tud_cdc_rx_cb_c (Suc (Suc 0)) (counting fifo_stack) 0 aa (fifo_of True [1, 2, 3]))) \<and>
   writes_follow_reads
     (fst (tud_cdc_rx_cb_c (Suc (Suc 0)) (counting fifo_stack) 0 aa (fifo_of True [1, 2, 3]))) \<and>
   writes_fresh
     (fst (tud_cdc_rx_cb_c (Suc (Suc 0)) (counting fifo_stack) 0 aa (fifo_of True [1, 2, 3]))) \<and>
   tud_cdc_rx_cb_c (Suc (Suc 0)) (counting fifo_stack) 0 zeroed (fifo_of True [1, 2, 3]) =
     tud_cdc_rx_cb_c (Suc (Suc 0)) (counting fifo_stack) 0 aa (fifo_of True [1, 2, 3])"
proof -
  have h: "reads_filled
     (fst (tud_cdc_rx_cb_c (Suc (Suc 0)) (counting fifo_stack) 0 aa (fifo_of True [1, 2, 3])))"
    by (simp add: run_counting_aa)
  from h no_stale_bytes_when_filled
      [of "Suc (Suc 0)" "counting fifo_stack" 0 aa "fifo_of True [1, 2, 3]" zeroed]
  show ?thesis by blast
qed

end
